theory Spec2Isabelle
  imports Complex_Main "HOL-Library.Word" "HOL-Library.Sublist"
begin

unbundle bit_operations_syntax

section \<open>The 3-Bit-Protocol encoder (ThreeBitProtocolEncoder.cpp)\<close>

text \<open>
  The encoder object holds a reference to the output buffer, the position of the next
  pulse inside the byte under construction (position 0 is the start bit) and that byte.
  \<open>uint8_t\<close> is \<open>8 word\<close>, \<open>uint32_t\<close> is \<open>32 word\<close>; \<open>bitPos\<close> is a
  \<open>size_t\<close> that never exceeds 10 and is a natural number here.
\<close>

record encoder =
  buffer :: "8 word list"
  bitPos :: nat
  currByte :: "8 word"

definition IntraLongIdleTime :: nat where
  "IntraLongIdleTime = 1"

definition InterLongIdleTime :: nat where
  "InterLongIdleTime = 2"

text \<open>The constructor clears the buffer it is given and starts with an all-high byte.\<close>

definition ThreeBitProtocolEncoder :: "8 word list \<Rightarrow> encoder" where
  "ThreeBitProtocolEncoder buf = \<lparr>buffer = [], bitPos = 0, currByte = 0xff\<rparr>"

definition pushCurrByteIfNotEmpty :: "encoder \<Rightarrow> encoder" where
  "pushCurrByteIfNotEmpty s =
     (if bitPos s = 0 then s
      else s\<lparr>buffer := buffer s @ [currByte s], bitPos := 0, currByte := 0xff\<rparr>)"

text \<open>
  \<open>currByte &= ~(m << (bitPos - 1))\<close>: the byte is promoted to a 32-bit int, masked, and
  the result is truncated back to eight bits by the assignment.
\<close>

definition clearPulse :: "8 word \<Rightarrow> 32 word \<Rightarrow> nat \<Rightarrow> 8 word" where
  "clearPulse c m pos = ucast ((ucast c :: 32 word) AND NOT (push_bit (pos - 1) m))"

text \<open>
  \<open>encodeBit\<close> calls itself once after moving to a fresh byte; the recursive call starts
  at position 0 and returns without recursing again. The two assertions on \<open>idleBits\<close>
  (\<open>0 < idleBits < 9\<close>) hold at both call sites, which pass the constants 1 and 2.
  The parameter \<open>bit\<close> of the source is \<open>b\<close> here.
\<close>

function encodeBit :: "8 word \<Rightarrow> nat \<Rightarrow> encoder \<Rightarrow> encoder" where
  "encodeBit b idleBits s0 =
     (let s = (if bitPos s0 \<ge> 10 then pushCurrByteIfNotEmpty s0 else s0) in
      if bitPos s = 0 then
        (if b = 0 then s\<lparr>currByte := currByte s AND 0xfe, bitPos := 2 + idleBits\<rparr>
         else s\<lparr>bitPos := 1 + idleBits\<rparr>)
      else if b = 0 then
        (let newPos = bitPos s + 2 + idleBits in
         if newPos > 10 then encodeBit b idleBits (pushCurrByteIfNotEmpty s)
         else s\<lparr>currByte := clearPulse (currByte s) 3 (bitPos s), bitPos := newPos\<rparr>)
      else
        (let newPos = bitPos s + 1 + idleBits in
         if newPos > 10 then encodeBit b idleBits (pushCurrByteIfNotEmpty s)
         else s\<lparr>currByte := clearPulse (currByte s) 1 (bitPos s), bitPos := newPos\<rparr>))"
  by pat_completeness auto
termination
  by (relation "measure (\<lambda>(b, idleBits, s). if bitPos s = 0 then 0 else 1)")
     (auto simp: pushCurrByteIfNotEmpty_def split: if_splits)

declare encodeBit.simps [simp del]

text \<open>
  The loop of \<open>encodeLongInternal\<close>: 31 bits, least significant first, each followed by
  the intra-long idle time; the last bit is followed by the inter-long idle time.
\<close>

function encodeLongLoop :: "nat \<Rightarrow> 32 word \<Rightarrow> encoder \<Rightarrow> 32 word \<times> encoder" where
  "encodeLongLoop i longValue s =
     (if i < 31 then
        encodeLongLoop (i + 1) (drop_bit 1 longValue)
          (encodeBit (ucast (longValue AND 1)) IntraLongIdleTime s)
      else (longValue, s))"
  by pat_completeness auto
termination
  by (relation "measure (\<lambda>(i, longValue, s). 31 - i)") auto

declare encodeLongLoop.simps [simp del]

definition encodeLongInternal :: "32 word \<Rightarrow> encoder \<Rightarrow> encoder" where
  "encodeLongInternal longValue s =
     (case encodeLongLoop 0 longValue s of
        (longValue', s') \<Rightarrow> encodeBit (ucast (longValue' AND 1)) InterLongIdleTime s')"

definition encodeLong :: "32 word \<Rightarrow> encoder \<Rightarrow> encoder" where
  "encodeLong longValue s = pushCurrByteIfNotEmpty (encodeLongInternal longValue s)"

text \<open>
  \<open>encodeBytesAsLongs\<close>: the \<open>for\<close> loop over the full longs, then the padded tail.
  \<open>data[index++] << k\<close> promotes the byte to a 32-bit int before shifting, and
  \<open>longValue |= ...\<close> stores the 32-bit pattern. The loop reads four bytes below
  \<open>numBytes\<close> in every iteration (the source asserts \<open>numBytes - index > 3\<close>), so every
  \<open>data ! index\<close> is in range. The counter \<open>i\<close> and the sizes are natural numbers: the
  source's \<open>int i\<close> agrees with them for any vector of fewer than \<open>2^33\<close> bytes, far
  beyond what the loader accepts as an image.
\<close>

function fullLongsLoop ::
  "8 word list \<Rightarrow> nat \<Rightarrow> nat \<Rightarrow> nat \<Rightarrow> encoder \<Rightarrow> nat \<times> encoder" where
  "fullLongsLoop data numLongs i index s =
     (if i < numLongs then
        (let longValue = (0 :: 32 word);
             longValue = longValue OR ucast (data ! index);
             longValue = longValue OR push_bit 8 (ucast (data ! (index + 1)));
             longValue = longValue OR push_bit 16 (ucast (data ! (index + 2)));
             longValue = longValue OR push_bit 24 (ucast (data ! (index + 3)))
         in fullLongsLoop data numLongs (i + 1) (index + 4) (encodeLongInternal longValue s))
      else (index, s))"
  by pat_completeness auto
termination
  by (relation "measure (\<lambda>(data, numLongs, i, index, s). numLongs - i)") auto

declare fullLongsLoop.simps [simp del]

definition remainderLong :: "8 word list \<Rightarrow> nat \<Rightarrow> 32 word" where
  "remainderLong data index =
     (let numBytes = length data;
          longValue = (0 :: 32 word);
          longValue = longValue OR ucast (data ! index);
          index = index + 1;
          (longValue, index) =
             (if index < numBytes
              then (longValue OR push_bit 8 (ucast (data ! index)), index + 1)
              else (longValue, index));
          (longValue, index) =
             (if index < numBytes
              then (longValue OR push_bit 16 (ucast (data ! index)), index + 1)
              else (longValue, index))
      in longValue)"

definition encodeBytesAsLongs :: "8 word list \<Rightarrow> encoder \<Rightarrow> nat \<times> encoder" where
  "encodeBytesAsLongs bytes s =
     (let numBytes = length bytes;
          numLongs = numBytes div 4
      in case fullLongsLoop bytes numLongs 0 0 s of
           (index, s1) \<Rightarrow>
             if index < numBytes
             then (numLongs + 1,
                   pushCurrByteIfNotEmpty (encodeLongInternal (remainderLong bytes index) s1))
             else (numLongs, pushCurrByteIfNotEmpty s1))"

section \<open>Prepared tables and helpers (APLoaderInternal.hpp, APLoaderInternal.cpp)\<close>

definition EncodedShutdown :: "8 word list" where
  "EncodedShutdown = [0x92, 0x92, 0x92, 0x92, 0x92, 0x92, 0x92, 0x92, 0x92, 0x92, 0xF2]"

definition EncodedLoadRAM :: "8 word list" where
  "EncodedLoadRAM = [0xC9, 0x92, 0x92, 0x92, 0x92, 0x92, 0x92, 0x92, 0x92, 0x92, 0xF2]"

definition EncodedProgramEEPROMThenShutdown :: "8 word list" where
  "EncodedProgramEEPROMThenShutdown =
     [0xCA, 0x92, 0x92, 0x92, 0x92, 0x92, 0x92, 0x92, 0x92, 0x92, 0xF2]"

definition EncodedProgramEEPROMThenRun :: "8 word list" where
  "EncodedProgramEEPROMThenRun =
     [0x25, 0x92, 0x92, 0x92, 0x92, 0x92, 0x92, 0x92, 0x92, 0x92, 0xFE]"

text \<open>
  \<open>decode3BPByte\<close> takes the iterator by reference and the end iterator. The bytes from
  the iterator to the end are a list; a normal return gives the decoded byte and the
  bytes after the advanced iterator. The two \<open>std::runtime_error\<close>s are the two
  constructors of \<open>runtime_error\<close>.
\<close>

datatype runtime_error = Insufficient_bytes | Unexpected_byte "8 word"

function decode3BPLoop ::
  "nat \<Rightarrow> 8 word \<Rightarrow> 8 word list \<Rightarrow> runtime_error + (8 word \<times> 8 word list)" where
  "decode3BPLoop i decodedByte iter =
     (if i < 4 then
        (case iter of
           [] \<Rightarrow> Inl Insufficient_bytes
         | byte # iter' \<Rightarrow>
             (let decodedByte = drop_bit 2 decodedByte in
              if byte = 0xCE then decode3BPLoop (i + 1) decodedByte iter'
              else if byte = 0xCF then decode3BPLoop (i + 1) (decodedByte OR 0x40) iter'
              else if byte = 0xEE then decode3BPLoop (i + 1) (decodedByte OR 0x80) iter'
              else if byte = 0xEF then decode3BPLoop (i + 1) (decodedByte OR 0xC0) iter'
              else Inl (Unexpected_byte byte)))
      else Inr (decodedByte, iter))"
  by pat_completeness auto
termination
  by (relation "measure (\<lambda>(i, decodedByte, iter). 4 - i)") auto

declare decode3BPLoop.simps [simp del]

definition decode3BPByte :: "8 word list \<Rightarrow> runtime_error + (8 word \<times> 8 word list)" where
  "decode3BPByte iter = decode3BPLoop 0 0 iter"

text \<open>
  \<open>verifyAndEncodeImage\<close> throws \<open>std::invalid_argument\<close> on an empty or oversized
  image, before the encoder is constructed; otherwise the encoder clears
  \<open>encodedImage\<close>, fills it, and the number of longs is returned. The constructors of
  \<open>invalid_argument\<close> stand for the messages of the \<open>std::invalid_argument\<close>s thrown
  in the repository.
\<close>

datatype invalid_argument =
    Image_is_too_small
  | Image_size_exceeds_hub_RAM nat
  | Baudrate_may_not_exceed_MaxBaudrate
  | Reset_duration_less_than_1_ms
  | Reset_duration_greater_than_100_ms
  | Boot_wait_duration_greater_than_150_ms
  | Boot_wait_duration_less_than_50_ms

definition verifyAndEncodeImage ::
  "8 word list \<Rightarrow> 8 word list \<Rightarrow> invalid_argument + (nat \<times> 8 word list)" where
  "verifyAndEncodeImage img encodedImage =
     (if length img = 0 then Inl Image_is_too_small
      else if length img > 32768 then Inl (Image_size_exceeds_hub_RAM (length img))
      else (case encodeBytesAsLongs img (ThreeBitProtocolEncoder encodedImage) of
              (numLongs, encoder) \<Rightarrow> Inr (numLongs, buffer encoder)))"

section \<open>Settings (AsyncPropLoader.cpp, AsyncPropLoader.hpp)\<close>

text \<open>
  The backing variables of the validated setters. The baudrate is a \<open>uint32_t\<close>; the two
  durations are \<open>simple::Milliseconds\<close>, compared through their signed \<open>count()\<close>.
\<close>

datatype ResetLine = DTR | RTS | Callback

record settings =
  baudrate :: "32 word"
  resetLine :: ResetLine
  resetDuration :: int
  bootWaitDuration :: int

definition MaxBaudrate :: "32 word" where
  "MaxBaudrate = 115200"

definition initial_settings :: settings where
  "initial_settings =
     \<lparr>baudrate = MaxBaudrate, resetLine = DTR, resetDuration = 10, bootWaitDuration = 100\<rparr>"

definition setBaudrate :: "32 word \<Rightarrow> settings \<Rightarrow> invalid_argument + settings" where
  "setBaudrate b st =
     (if b > MaxBaudrate then Inl Baudrate_may_not_exceed_MaxBaudrate
      else Inr (st\<lparr>baudrate := b\<rparr>))"

definition setResetDuration :: "int \<Rightarrow> settings \<Rightarrow> invalid_argument + settings" where
  "setResetDuration d st =
     (if d < 1 then Inl Reset_duration_less_than_1_ms
      else if d > 100 then Inl Reset_duration_greater_than_100_ms
      else Inr (st\<lparr>resetDuration := d\<rparr>))"

definition setBootWaitDuration :: "int \<Rightarrow> settings \<Rightarrow> invalid_argument + settings" where
  "setBootWaitDuration d st =
     (if d > 150 then Inl Boot_wait_duration_greater_than_150_ms
      else if d < 50 then Inl Boot_wait_duration_less_than_50_ms
      else Inr (st\<lparr>bootWaitDuration := d\<rparr>))"

section \<open>The action and its stages (AsyncPropLoader.cpp, APLoaderDefs.hpp)\<close>

datatype Action =
  None_Action | Shutdown | LoadRAM | ProgramEEPROMThenShutdown | ProgramEEPROMThenRun | Restart

datatype Status =
    Resetting
  | EstablishingCommunications
  | SendingCommandAndImage
  | WaitingForChecksumStatus
  | WaitingForEEPROMProgrammingStatus
  | WaitingForEEPROMVerificationStatus

datatype ErrorCode =
    None_ErrorCode
  | Cancelled
  | FailedToObtainPortAccess
  | FailedToOpenPort
  | FailedToFlushOutput
  | FailedToSetBaudrate
  | FailedToSetTimeout
  | FailedToSetBytesize
  | FailedToSetParity
  | FailedToSetStopbits
  | FailedToSetFlowcontrol
  | FailedToReset
  | FailedToFlushInput
  | FailedToSendInitialBytes
  | FailedToReceivePropAuthentication
  | FailedToAuthenticateProp
  | FailedToReceiveChipVersion
  | FailedToDecodeChipVersion
  | UnsupportedChipVersion
  | FailedToSendCommand
  | FailedToEncodeImageSize
  | FailedToSendImageSize
  | FailedToSendImage
  | FailedToSendStatusPrompt
  | FailedToReceiveChecksumStatus
  | PropReportsChecksumError
  | FailedToReceiveEEPROMProgrammingStatus
  | PropReportsEEPROMProgrammingError
  | FailedToReceiveEEPROMVerificationStatus
  | PropReportsEEPROMVerificationError
  | UnhandledException

definition actionIsValid :: "Action \<Rightarrow> bool" where
  "actionIsValid action =
     (action = Shutdown \<or> action = LoadRAM \<or> action = ProgramEEPROMThenShutdown \<or>
      action = ProgramEEPROMThenRun \<or> action = Restart)"

text \<open>
  \<open>a_performAction\<close> is a straight sequence of calls: the nine stage functions, the
  status-monitor updates between them, and three early \<open>return\<close>s. The stage functions
  talk to the serial port; here each is a parameter that either returns or throws an
  \<open>ActionError\<close> with an error code. The run is recorded as the list of calls made, in
  order. A statement of the sequence maps the calls made so far to the calls made after
  it and to how it ended: the sequence goes on, the function has returned, or an
  \<open>ActionError\<close> has left it.
\<close>

datatype Stage =
  Stage1 | Stage2a | Stage2b | Stage3 | Stage4a | Stage4b | Stage5 | Stage6 | Stage7

datatype call = StageCall Stage | LoaderUpdate Status

datatype outcome = Continues | Returned | Thrown ErrorCode

type_synonym statement = "call list \<Rightarrow> call list \<times> outcome"

definition callStage :: "(Stage \<Rightarrow> ErrorCode option) \<Rightarrow> Stage \<Rightarrow> statement" where
  "callStage stage st calls =
     (calls @ [StageCall st],
      case stage st of None \<Rightarrow> Continues | Some errorCode \<Rightarrow> Thrown errorCode)"

definition a_callStatusMonitorLoaderUpdate :: "Status \<Rightarrow> statement" where
  "a_callStatusMonitorLoaderUpdate status calls = (calls @ [LoaderUpdate status], Continues)"

definition returnIf :: "bool \<Rightarrow> statement" where
  "returnIf c calls = (calls, if c then Returned else Continues)"

fun sequence :: "statement list \<Rightarrow> statement" where
  "sequence [] calls = (calls, Continues)"
| "sequence (stmt # stmts) calls =
     (case stmt calls of
        (calls', Continues) \<Rightarrow> sequence stmts calls'
      | (calls', Returned) \<Rightarrow> (calls', Returned)
      | (calls', Thrown errorCode) \<Rightarrow> (calls', Thrown errorCode))"

definition a_performAction ::
  "(Stage \<Rightarrow> ErrorCode option) \<Rightarrow> Action \<Rightarrow> call list \<times> outcome" where
  "a_performAction stage action =
     sequence
       [callStage stage Stage1,
        a_callStatusMonitorLoaderUpdate Resetting,
        callStage stage Stage2a,
        returnIf (action = Restart),
        callStage stage Stage2b,
        a_callStatusMonitorLoaderUpdate EstablishingCommunications,
        callStage stage Stage3,
        a_callStatusMonitorLoaderUpdate SendingCommandAndImage,
        callStage stage Stage4a,
        returnIf (action = Shutdown),
        callStage stage Stage4b,
        a_callStatusMonitorLoaderUpdate WaitingForChecksumStatus,
        callStage stage Stage5,
        returnIf (action = LoadRAM),
        a_callStatusMonitorLoaderUpdate WaitingForEEPROMProgrammingStatus,
        callStage stage Stage6,
        a_callStatusMonitorLoaderUpdate WaitingForEEPROMVerificationStatus,
        callStage stage Stage7] []"

text \<open>
  \<open>actionThread\<close> reports \<open>ErrorCode::None\<close> when \<open>a_performAction\<close> returns and the
  error code of the \<open>ActionError\<close> otherwise.
\<close>

definition actionThread :: "(Stage \<Rightarrow> ErrorCode option) \<Rightarrow> Action \<Rightarrow> call list \<times> ErrorCode" where
  "actionThread stage action =
     (case a_performAction stage action of
        (calls, Thrown errorCode) \<Rightarrow> (calls, errorCode)
      | (calls, _) \<Rightarrow> (calls, None_ErrorCode))"

fun stagesOf :: "call list \<Rightarrow> Stage list" where
  "stagesOf [] = []"
| "stagesOf (StageCall st # calls) = st # stagesOf calls"
| "stagesOf (LoaderUpdate status # calls) = stagesOf calls"

section \<open>Polling for a status code (AsyncPropLoader.cpp)\<close>

text \<open>
  One pass of the loop of \<open>a_receiveStatus\<close> observes, in this order: the cancellation
  flag, whether writing the prompt 0x29 throws, what \<open>available()\<close> returns (or that it
  throws), what \<open>read(&buffer, 1)\<close> returns and stores (or that it throws), and whether
  the timeout time has passed. The port's behaviour is the list of these observations, one
  per pass; the loop has no bound of its own, so a list that ends before the loop has
  returned or thrown gives \<open>None\<close>. The result \<open>Inr True\<close> is the source's \<open>true\<close>,
  which means failure.
\<close>

record pass =
  isCancelled :: bool
  writeThrows :: bool
  available :: "nat option"
  readResult :: "(nat \<times> 8 word) option"
  timeoutPassed :: bool

fun a_receiveStatus :: "ErrorCode \<Rightarrow> pass list \<Rightarrow> (ErrorCode + bool) option" where
  "a_receiveStatus potentialError [] = None"
| "a_receiveStatus potentialError (p # ps) =
     (if isCancelled p then Some (Inl Cancelled)
      else if writeThrows p then Some (Inl potentialError)
      else (case available p of
              None \<Rightarrow> Some (Inl potentialError)
            | Some numAvailable \<Rightarrow>
                if numAvailable > 0 then
                  (case readResult p of
                     None \<Rightarrow> Some (Inl potentialError)
                   | Some (numReceived, byte) \<Rightarrow>
                       if numReceived = 1 then
                         (if byte = 0xff then Some (Inr True)
                          else if byte = 0xfe then Some (Inr False)
                          else Some (Inl potentialError))
                       else Some (Inl potentialError))
                else if timeoutPassed p then Some (Inl potentialError)
                else a_receiveStatus potentialError ps))"

text \<open>
  Stage 5: a checkpoint (which throws \<open>Cancelled\<close> when the action has been cancelled),
  the poll, a second checkpoint, and the test of the status.
\<close>

definition a_stage5_waitForChecksumStatus ::
  "bool \<Rightarrow> pass list \<Rightarrow> bool \<Rightarrow> (ErrorCode + unit) option" where
  "a_stage5_waitForChecksumStatus cancelledBefore passes cancelledAfter =
     (if cancelledBefore then Some (Inl Cancelled)
      else (case a_receiveStatus FailedToReceiveChecksumStatus passes of
              None \<Rightarrow> None
            | Some (Inl errorCode) \<Rightarrow> Some (Inl errorCode)
            | Some (Inr status) \<Rightarrow>
                if cancelledAfter then Some (Inl Cancelled)
                else if status then Some (Inl PropReportsChecksumError)
                else Some (Inr ())))"

section \<open>Transit time (AsyncPropLoader.cpp)\<close>

text \<open>
  \<open>a_transitDuration\<close> evaluates \<open>numBytes * 10000000.0f / a_baudrate\<close> in single
  precision: the \<open>size_t\<close> and the \<open>uint32_t\<close> are converted to \<open>float\<close>, the product
  and the quotient are \<open>float\<close> operations, and the initialisation of the \<open>long long\<close>
  truncates the quotient. Every one of these steps except the truncation rounds its exact
  result to the nearest binary32 value, ties to the even significand. The values are
  rational numbers, all non-negative here.

  \<open>roundHalfEven\<close> rounds to the nearest integer, ties to even. A binary32 value has a
  significand of 24 bits: \<open>binary32 x\<close> scales \<open>x\<close> by the power of two that brings it
  into the range from \<open>2^23\<close> to \<open>2^24\<close>, rounds, and scales back. \<open>binadeUp\<close> and
  \<open>binadeDown\<close> search that power of two, for \<open>x\<close> from \<open>2^23\<close> on and for \<open>x\<close>
  below \<open>2^23\<close>. The exponent is not bounded: for a \<open>size_t\<close> byte count and a non-zero
  \<open>uint32_t\<close> baudrate every value is 0 or lies between \<open>10^7 / 2^32\<close> and
  \<open>2^64 * 10^7\<close>, inside the normal range of binary32.
\<close>

definition roundHalfEven :: "rat \<Rightarrow> int" where
  "roundHalfEven x =
     (let f = \<lfloor>x\<rfloor>; d = x - of_int f
      in if d < 1 / 2 then f else if 1 / 2 < d then f + 1 else if even f then f else f + 1)"

function binadeUp :: "rat \<Rightarrow> nat \<Rightarrow> nat" where
  "binadeUp x k = (if x < 2 ^ (k + 24) then k else binadeUp x (k + 1))"
  by pat_completeness auto
termination
proof (relation "measure (\<lambda>(x, k). nat \<lceil>x\<rceil> - 2 ^ k)")
  show "wf (measure (\<lambda>(x, k). nat \<lceil>x\<rceil> - 2 ^ k))" by simp
next
  fix x :: rat and k :: nat
  assume "\<not> x < 2 ^ (k + 24)"
  then have "(2 :: rat) ^ (k + 24) \<le> x" by simp
  moreover have "(2 :: rat) ^ (k + 1) \<le> 2 ^ (k + 24)" by (rule power_increasing) simp_all
  ultimately have "rat_of_int (2 ^ (k + 1)) \<le> of_int \<lceil>x\<rceil>"
    by (metis of_int_numeral of_int_power order_trans le_of_int_ceiling)
  then have "(2 :: int) ^ (k + 1) \<le> \<lceil>x\<rceil>" by (simp only: of_int_le_iff)
  then have "(2 :: nat) ^ (k + 1) \<le> nat \<lceil>x\<rceil>"
    by (metis nat_mono nat_numeral nat_power_eq zero_le_numeral)
  moreover have "(2 :: nat) ^ k < 2 ^ (k + 1)" by simp
  ultimately have "nat \<lceil>x\<rceil> - 2 ^ (k + 1) < nat \<lceil>x\<rceil> - 2 ^ k" by linarith
  then show "((x, k + 1), (x, k)) \<in> measure (\<lambda>(x, k). nat \<lceil>x\<rceil> - 2 ^ k)"
    by simp
qed

function binadeDown :: "rat \<Rightarrow> nat \<Rightarrow> nat" where
  "binadeDown x k = (if x \<le> 0 \<or> 2 ^ 23 \<le> x * 2 ^ k then k else binadeDown x (k + 1))"
  by pat_completeness auto
termination
proof (relation "measure (\<lambda>(x, k). nat \<lceil>2 ^ 23 / x\<rceil> - 2 ^ k)")
  show "wf (measure (\<lambda>(x, k). nat \<lceil>2 ^ 23 / x\<rceil> - 2 ^ k))" by simp
next
  fix x :: rat and k :: nat
  assume "\<not> (x \<le> 0 \<or> 2 ^ 23 \<le> x * 2 ^ k)"
  then have x: "0 < x" and lt: "x * 2 ^ k < 2 ^ 23" by simp_all
  from lt x have "(2 :: rat) ^ k < 2 ^ 23 / x" by (simp add: field_simps)
  then have "rat_of_int (2 ^ k) < of_int \<lceil>2 ^ 23 / x\<rceil>"
    by (metis of_int_numeral of_int_power less_le_trans le_of_int_ceiling)
  then have "(2 :: int) ^ k < \<lceil>2 ^ 23 / x\<rceil>" by (simp only: of_int_less_iff)
  then have "(2 :: nat) ^ k < nat \<lceil>2 ^ 23 / x\<rceil>"
    by (metis nat_less_eq_zless nat_numeral nat_power_eq zero_le_numeral zero_le_power)
  moreover have "(2 :: nat) ^ k < 2 ^ (k + 1)" by simp
  ultimately have "nat \<lceil>2 ^ 23 / x\<rceil> - 2 ^ (k + 1) < nat \<lceil>2 ^ 23 / x\<rceil> - 2 ^ k"
    by linarith
  then show "((x, k + 1), (x, k)) \<in> measure (\<lambda>(x, k). nat \<lceil>2 ^ 23 / x\<rceil> - 2 ^ k)"
    by simp
qed

declare binadeUp.simps [simp del] binadeDown.simps [simp del]

definition binary32 :: "rat \<Rightarrow> rat" where
  "binary32 x =
     (if 2 ^ 23 \<le> x
      then (let k = binadeUp x 0 in of_int (roundHalfEven (x / 2 ^ k)) * 2 ^ k)
      else (let k = binadeDown x 0 in of_int (roundHalfEven (x * 2 ^ k)) / 2 ^ k))"

text \<open>
  The baudrate 0 makes the quotient infinite (or not a number), and converting that to
  \<open>long long\<close> is undefined: the result is \<open>None\<close>. The conversion is also undefined
  from \<open>2^63\<close> on, which takes a byte count above \<open>2^39\<close>; the byte counts are the
  sizes of the vectors the loader sends, and the truncation is taken as it is.
\<close>

definition a_transitDuration :: "nat \<Rightarrow> 32 word \<Rightarrow> int option" where
  "a_transitDuration numBytes a_baudrate =
     (if a_baudrate = 0 then None
      else (let n = \<lfloor>binary32 (binary32 (binary32 (of_nat numBytes) * 10000000) /
                                 binary32 (of_nat (unat a_baudrate)))\<rfloor>
            in Some (if n < 1 then 1 else n)))"

section \<open>What the specification says, as definitions\<close>

text \<open>
  The definitions of this section are not taken from the code. They write down the
  specification's description of each operation, to be compared with the embedding of the
  code above.
\<close>

subsection \<open>Packing bytes into longs\<close>

text \<open>
  Four bytes read as a little-endian 32-bit number, the padding of a byte sequence with
  zero bytes up to a multiple of four, and the longs of a byte sequence, four bytes at a
  time.
\<close>

definition le32 :: "8 word \<Rightarrow> 8 word \<Rightarrow> 8 word \<Rightarrow> 8 word \<Rightarrow> 32 word" where
  "le32 b0 b1 b2 b3 =
     word_of_nat (unat b0 + 256 * unat b1 + 65536 * unat b2 + 16777216 * unat b3)"

definition zeroPad :: "8 word list \<Rightarrow> 8 word list" where
  "zeroPad bytes = bytes @ replicate ((4 - length bytes mod 4) mod 4) 0"

fun longsLE :: "8 word list \<Rightarrow> 32 word list" where
  "longsLE (b0 # b1 # b2 # b3 # rest) = le32 b0 b1 b2 b3 # longsLE rest"
| "longsLE _ = []"

subsection \<open>Space taken in the output\<close>

text \<open>
  A pulse takes two bit periods for a 0 and one for a 1, followed by its idle time. The
  output is counted in bit periods, ten to a byte: \<open>slots\<close> is ten times the number of
  bytes pushed plus the position in the byte under construction, and \<open>advance w\<close> places
  a pulse of \<open>w\<close> bit periods (idle time included), starting a new byte when it does not
  fit in the current one. \<open>bitWidths\<close> lists the widths of the 32 pulses of a long.
\<close>

definition pulseWidth :: "8 word \<Rightarrow> nat" where
  "pulseWidth b = (if b = 0 then 2 else 1)"

definition slots :: "encoder \<Rightarrow> nat" where
  "slots s = 10 * length (buffer s) + bitPos s"

definition advance :: "nat \<Rightarrow> nat \<Rightarrow> nat" where
  "advance w t =
     (if t mod 10 = 0 then t + w
      else if t mod 10 + w > 10 then (t div 10 + 1) * 10 + w
      else t + w)"

definition bitWidths :: "32 word \<Rightarrow> nat list" where
  "bitWidths longValue =
     map (\<lambda>k. pulseWidth (ucast (drop_bit k longValue AND 1)) + IntraLongIdleTime) [0..<31] @
     [pulseWidth (ucast (drop_bit 31 longValue AND 1)) + InterLongIdleTime]"

subsection \<open>Decoding a response byte\<close>

text \<open>
  The four response bytes that carry data, the two bits each of them stands for, and the
  data byte made of the bit pairs of four response bytes, least significant pair first.
\<close>

definition valid3BP :: "8 word set" where
  "valid3BP = {0xCE, 0xCF, 0xEE, 0xEF}"

definition bitPair :: "8 word \<Rightarrow> 8 word" where
  "bitPair byte =
     (if byte = 0xCE then 0 else if byte = 0xCF then 1 else if byte = 0xEE then 2 else 3)"

definition fromBitPairs :: "8 word list \<Rightarrow> 8 word" where
  "fromBitPairs bs =
     bitPair (bs ! 0) OR push_bit 2 (bitPair (bs ! 1)) OR push_bit 4 (bitPair (bs ! 2)) OR
     push_bit 6 (bitPair (bs ! 3))"

subsection \<open>The stages of an action\<close>

text \<open>The stages the specification gives to each kind of action, in order.\<close>

fun stagesFor :: "Action \<Rightarrow> Stage list" where
  "stagesFor Restart = [Stage1, Stage2a]"
| "stagesFor Shutdown = [Stage1, Stage2a, Stage2b, Stage3, Stage4a]"
| "stagesFor LoadRAM = [Stage1, Stage2a, Stage2b, Stage3, Stage4a, Stage4b, Stage5]"
| "stagesFor ProgramEEPROMThenShutdown =
     [Stage1, Stage2a, Stage2b, Stage3, Stage4a, Stage4b, Stage5, Stage6, Stage7]"
| "stagesFor ProgramEEPROMThenRun =
     [Stage1, Stage2a, Stage2b, Stage3, Stage4a, Stage4b, Stage5, Stage6, Stage7]"
| "stagesFor None_Action = []"

subsection \<open>Passes of the status poll\<close>

text \<open>
  A pass in which nothing arrives (the action is not cancelled, the prompt is written, no
  byte is available, the timeout has not passed), and a pass in which the status byte
  \<open>b\<close> is read.
\<close>

definition idlePass :: "pass \<Rightarrow> bool" where
  "idlePass p =
     (\<not> isCancelled p \<and> \<not> writeThrows p \<and> available p = Some 0 \<and> \<not> timeoutPassed p)"

definition readsByte :: "pass \<Rightarrow> 8 word \<Rightarrow> bool" where
  "readsByte p b =
     (\<not> isCancelled p \<and> \<not> writeThrows p \<and>
      (case available p of None \<Rightarrow> False | Some numAvailable \<Rightarrow> numAvailable > 0) \<and>
      readResult p = Some (1, b))"

section \<open>The pre-encoded commands\<close>

lemma encodeLong_Shutdown:
  "encodeLong 0 (ThreeBitProtocolEncoder []) =
     \<lparr>buffer = EncodedShutdown, bitPos = 0, currByte = 0xff\<rparr>"
  by code_simp

lemma encodeLong_LoadRAM:
  "encodeLong 1 (ThreeBitProtocolEncoder []) =
     \<lparr>buffer = EncodedLoadRAM, bitPos = 0, currByte = 0xff\<rparr>"
  by code_simp

lemma encodeLong_ProgramEEPROMThenShutdown:
  "encodeLong 2 (ThreeBitProtocolEncoder []) =
     \<lparr>buffer = EncodedProgramEEPROMThenShutdown, bitPos = 0, currByte = 0xff\<rparr>"
  by code_simp

lemma encodeLong_ProgramEEPROMThenRun:
  "encodeLong 3 (ThreeBitProtocolEncoder []) =
     \<lparr>buffer = EncodedProgramEEPROMThenRun, bitPos = 0, currByte = 0xff\<rparr>"
  by code_simp

text \<open>
  Claim C1. Encoding the command words 0, 1, 2 and 3 as one long each, on a fresh encoder
  over an empty buffer, gives exactly the four prepared 11-byte tables EncodedShutdown,
  EncodedLoadRAM, EncodedProgramEEPROMThenShutdown and EncodedProgramEEPROMThenRun, and
  leaves the encoder with no byte under construction.
\<close>

theorem encodeLong_commands:
  "buffer (encodeLong 0 (ThreeBitProtocolEncoder [])) =
     [0x92, 0x92, 0x92, 0x92, 0x92, 0x92, 0x92, 0x92, 0x92, 0x92, 0xF2] \<and>
   buffer (encodeLong 1 (ThreeBitProtocolEncoder [])) =
     [0xC9, 0x92, 0x92, 0x92, 0x92, 0x92, 0x92, 0x92, 0x92, 0x92, 0xF2] \<and>
   buffer (encodeLong 2 (ThreeBitProtocolEncoder [])) =
     [0xCA, 0x92, 0x92, 0x92, 0x92, 0x92, 0x92, 0x92, 0x92, 0x92, 0xF2] \<and>
   buffer (encodeLong 3 (ThreeBitProtocolEncoder [])) =
     [0x25, 0x92, 0x92, 0x92, 0x92, 0x92, 0x92, 0x92, 0x92, 0x92, 0xFE] \<and>
   encodeLong 0 (ThreeBitProtocolEncoder []) =
     \<lparr>buffer = EncodedShutdown, bitPos = 0, currByte = 0xff\<rparr> \<and>
   encodeLong 1 (ThreeBitProtocolEncoder []) =
     \<lparr>buffer = EncodedLoadRAM, bitPos = 0, currByte = 0xff\<rparr> \<and>
   encodeLong 2 (ThreeBitProtocolEncoder []) =
     \<lparr>buffer = EncodedProgramEEPROMThenShutdown, bitPos = 0, currByte = 0xff\<rparr> \<and>
   encodeLong 3 (ThreeBitProtocolEncoder []) =
     \<lparr>buffer = EncodedProgramEEPROMThenRun, bitPos = 0, currByte = 0xff\<rparr>"
  unfolding encodeLong_Shutdown encodeLong_LoadRAM encodeLong_ProgramEEPROMThenShutdown
    encodeLong_ProgramEEPROMThenRun
  by (simp add: EncodedShutdown_def EncodedLoadRAM_def EncodedProgramEEPROMThenShutdown_def
      EncodedProgramEEPROMThenRun_def)

section \<open>The position and the output length of the encoder\<close>

lemma encodeBit_at0:
  "bitPos s = 0 \<Longrightarrow> encodeBit b idleBits s =
     (if b = 0 then s\<lparr>currByte := currByte s AND 0xfe, bitPos := 2 + idleBits\<rparr>
      else s\<lparr>bitPos := 1 + idleBits\<rparr>)"
  by (subst encodeBit.simps) simp

lemma bitPos_push [simp]: "bitPos (pushCurrByteIfNotEmpty s) = 0"
  by (simp add: pushCurrByteIfNotEmpty_def)

lemma buffer_push:
  "buffer (pushCurrByteIfNotEmpty s) = (if bitPos s = 0 then buffer s else buffer s @ [currByte s])"
  by (simp add: pushCurrByteIfNotEmpty_def)

lemma bitPos_encodeBit:
  "bitPos (encodeBit b idleBits s) =
     (if bitPos s = 0 \<or> bitPos s + pulseWidth b + idleBits > 10
      then pulseWidth b + idleBits
      else bitPos s + pulseWidth b + idleBits)"
  by (subst encodeBit.simps) (auto simp: encodeBit_at0 pulseWidth_def Let_def)

lemma length_encodeBit:
  "length (buffer (encodeBit b idleBits s)) =
     (if 0 < bitPos s \<and> bitPos s + pulseWidth b + idleBits > 10
      then length (buffer s) + 1 else length (buffer s))"
  by (subst encodeBit.simps) (auto simp: encodeBit_at0 pulseWidth_def Let_def buffer_push)

lemma slots_encodeBit:
  "bitPos s \<le> 10 \<Longrightarrow> slots (encodeBit b idleBits s) = advance (pulseWidth b + idleBits) (slots s)"
  unfolding slots_def advance_def bitPos_encodeBit length_encodeBit
  by (cases "bitPos s = 10") auto

lemma bitPos_encodeBit_le:
  "bitPos s \<le> 10 \<Longrightarrow> idleBits \<le> 8 \<Longrightarrow> bitPos (encodeBit b idleBits s) \<le> 10"
  by (auto simp: bitPos_encodeBit pulseWidth_def)

lemma advance_shift: "advance w (t + 10 * k) = advance w t + 10 * k"
  by (simp add: advance_def algebra_simps)

lemma advance_mono:
  assumes "t \<le> t'" "w \<le> w'" "w' \<le> 10"
  shows "advance w t \<le> advance w' t'"
proof -
  define q p q' p' where "q = t div 10" and "p = t mod 10" and "q' = t' div 10" and "p' = t' mod 10"
  have t: "t = 10 * q + p" and p: "p < 10" and t': "t' = 10 * q' + p'" and p': "p' < 10"
    by (simp_all add: q_def p_def q'_def p'_def)
  have qq: "q \<le> q'"
    unfolding q_def q'_def using assms(1) by (rule div_le_mono)
  have qq2: "q + 1 \<le> q'" if "p' < p"
  proof -
    have "q \<noteq> q'" using that assms(1) t t' by auto
    then show ?thesis using qq by simp
  qed
  have a: "advance w t = (if p = 0 then t + w else if p + w > 10 then (q + 1) * 10 + w else t + w)"
    by (simp add: advance_def p_def q_def)
  have a': "advance w' t' = (if p' = 0 then t' + w' else if p' + w' > 10 then (q' + 1) * 10 + w' else t' + w')"
    by (simp add: advance_def p'_def q'_def)
  consider "p' < p" | "p \<le> p'" by linarith
  then show ?thesis
  proof cases
    case 1
    then have "q + 1 \<le> q'" by (rule qq2)
    then show ?thesis unfolding a a' using assms p p' 1 by (simp add: t t')
  next
    case 2
    then show ?thesis unfolding a a' using assms p p' qq by (simp add: t t')
  qed
qed

lemma advance_incr: "t \<le> advance w t"
  unfolding advance_def by auto

lemma length_push_slots:
  "bitPos s \<le> 10 \<Longrightarrow> length (buffer (pushCurrByteIfNotEmpty s)) = (slots s + 9) div 10"
  by (auto simp: buffer_push slots_def)

lemma encodeLongLoop_fst:
  "i \<le> 31 \<Longrightarrow> fst (encodeLongLoop i longValue s) = drop_bit (31 - i) longValue"
proof (induction i longValue s rule: encodeLongLoop.induct)
  case (1 i longValue s)
  show ?case
  proof (cases "i < 31")
    case True
    then have "31 - i = Suc (31 - (i + 1))" by simp
    with True 1 show ?thesis
      by (subst encodeLongLoop.simps) (simp add: drop_bit_drop_bit del: drop_bit_Suc)
  next
    case False
    with 1 show ?thesis by (subst encodeLongLoop.simps) simp
  qed
qed

lemma encodeLongLoop_bitPos:
  "bitPos s \<le> 10 \<Longrightarrow> bitPos (snd (encodeLongLoop i longValue s)) \<le> 10"
proof (induction i longValue s rule: encodeLongLoop.induct)
  case (1 i longValue s)
  show ?case
  proof (cases "i < 31")
    case True
    with 1 show ?thesis
      by (subst encodeLongLoop.simps) (simp add: bitPos_encodeBit_le IntraLongIdleTime_def)
  next
    case False
    with 1 show ?thesis by (subst encodeLongLoop.simps) simp
  qed
qed

lemma encodeLongLoop_slots:
  "bitPos s \<le> 10 \<Longrightarrow> i \<le> 31 \<Longrightarrow>
   slots (snd (encodeLongLoop i longValue s)) =
     fold advance
       (map (\<lambda>k. pulseWidth (ucast (drop_bit k longValue AND 1)) + IntraLongIdleTime) [0..<31 - i])
       (slots s)"
proof (induction i longValue s rule: encodeLongLoop.induct)
  case (1 i longValue s)
  show ?case
  proof (cases "i < 31")
    case True
    then have eq: "31 - i = Suc (31 - (i + 1))" by simp
    have upt: "[0..<Suc (31 - (i + 1))] = 0 # map Suc [0..<31 - (i + 1)]"
      by (simp add: upt_conv_Cons map_Suc_upt del: upt_Suc)
    from True 1 show ?thesis
      apply (subst encodeLongLoop.simps)
      apply (simp only: eq upt)
      apply (simp add: bitPos_encodeBit_le IntraLongIdleTime_def slots_encodeBit drop_bit_drop_bit comp_def del: drop_bit_Suc upt_Suc)
      done
  next
    case False
    with 1 show ?thesis by (subst encodeLongLoop.simps) simp
  qed
qed

lemma encodeLongInternal_bitPos:
  "bitPos s \<le> 10 \<Longrightarrow> bitPos (encodeLongInternal longValue s) \<le> 10"
  by (simp add: encodeLongInternal_def split_beta bitPos_encodeBit_le encodeLongLoop_bitPos InterLongIdleTime_def)

lemma encodeLongInternal_slots:
  "bitPos s \<le> 10 \<Longrightarrow> slots (encodeLongInternal longValue s) = fold advance (bitWidths longValue) (slots s)"
  by (simp add: encodeLongInternal_def split_beta slots_encodeBit encodeLongLoop_bitPos
      encodeLongLoop_slots encodeLongLoop_fst bitWidths_def)

section \<open>\<open>encodeBytesAsLongs\<close> packs little-endian longs\<close>

lemma or_plus:
  fixes b0 b1 b2 b3 :: "8 word"
  shows "(ucast b0 OR push_bit 8 (ucast b1) OR push_bit 16 (ucast b2) OR push_bit 24 (ucast b3) :: 32 word) =
     ucast b0 + push_bit 8 (ucast b1) + push_bit 16 (ucast b2) + push_bit 24 (ucast b3)"
proof -
  have 1: "(ucast b0 + push_bit 8 (ucast b1) :: 32 word) = ucast b0 OR push_bit 8 (ucast b1)"
    by (rule disjunctive_add) (auto simp: bit_simps dest: bit_imp_le_length)
  have 2: "((ucast b0 OR push_bit 8 (ucast b1)) + push_bit 16 (ucast b2) :: 32 word)
       = (ucast b0 OR push_bit 8 (ucast b1)) OR push_bit 16 (ucast b2)"
    by (rule disjunctive_add) (auto simp: bit_simps dest: bit_imp_le_length)
  have 3: "((ucast b0 OR push_bit 8 (ucast b1) OR push_bit 16 (ucast b2)) + push_bit 24 (ucast b3) :: 32 word)
       = (ucast b0 OR push_bit 8 (ucast b1) OR push_bit 16 (ucast b2)) OR push_bit 24 (ucast b3)"
    by (rule disjunctive_add) (auto simp: bit_simps dest: bit_imp_le_length)
  show ?thesis
    by (simp only: 1 2 3 or.assoc)
qed

lemma ucast_nat: "(ucast (b :: 8 word) :: 32 word) = word_of_nat (unat b)"
  by simp

lemma plus_nat:
  fixes b0 b1 b2 b3 :: "8 word"
  shows "(ucast b0 + push_bit 8 (ucast b1) + push_bit 16 (ucast b2) + push_bit 24 (ucast b3) :: 32 word)
    =  word_of_nat (unat b0 + 256 * unat b1 + 65536 * unat b2 + 16777216 * unat b3)"
  by (simp add: push_bit_eq_mult)

lemma le32_bits:
  "(0 :: 32 word) OR ucast b0 OR push_bit 8 (ucast b1) OR push_bit 16 (ucast b2) OR push_bit 24 (ucast b3)
     = le32 b0 b1 b2 b3"
  using or_plus [of b0 b1 b2 b3] plus_nat [of b0 b1 b2 b3] by (simp add: le32_def)

lemma drop_four:
  "index + 4 \<le> length data \<Longrightarrow>
   drop index data =
     data ! index # data ! (index + 1) # data ! (index + 2) # data ! (index + 3) # drop (index + 4) data"
  by (simp add: Cons_nth_drop_Suc [symmetric] numeral_eq_Suc)

lemma take_four: "take (4 + k) (a # b # c # d # xs) = a # b # c # d # take k xs"
  by (simp add: numeral_eq_Suc)

lemma fullLongsLoop_longsLE:
  "index + 4 * (numLongs - i) \<le> length data \<Longrightarrow>
   fullLongsLoop data numLongs i index s =
     (index + 4 * (numLongs - i),
      fold encodeLongInternal (longsLE (take (4 * (numLongs - i)) (drop index data))) s)"
proof (induction data numLongs i index s rule: fullLongsLoop.induct)
  case (1 data numLongs i index s)
  show ?case
  proof (cases "i < numLongs")
    case True
    then have eq: "numLongs - i = Suc (numLongs - (i + 1))" by simp
    have len: "index + 4 \<le> length data" "index + 4 + 4 * (numLongs - (i + 1)) \<le> length data"
      using "1.prems" True by auto
    have tk: "take (4 * Suc (numLongs - (i + 1))) (drop index data) =
        data ! index # data ! (index + 1) # data ! (index + 2) # data ! (index + 3) #
        take (4 * (numLongs - (i + 1))) (drop (index + 4) data)"
      by (subst drop_four [OF len(1)]) (simp only: mult_Suc_right take_four)
    show ?thesis
      apply (subst fullLongsLoop.simps)
      apply (simp only: eq tk)
      using True "1.IH" [OF True refl refl refl refl refl len(2)] le32_bits
      apply (simp add: Let_def or.assoc)
      done
  next
    case False
    then show ?thesis by (subst fullLongsLoop.simps) simp
  qed
qed

lemma drop_tail1: "length data = index + 1 \<Longrightarrow> drop index data = [data ! index]"
  by (simp add: Cons_nth_drop_Suc [symmetric])

lemma drop_tail2:
  "length data = index + 2 \<Longrightarrow> drop index data = [data ! index, data ! (index + 1)]"
  by (simp add: Cons_nth_drop_Suc [symmetric])

lemma drop_tail3:
  "length data = index + 3 \<Longrightarrow>
   drop index data = [data ! index, data ! (index + 1), data ! (index + 2)]"
  by (simp add: Cons_nth_drop_Suc [symmetric] numeral_eq_Suc)

lemma remainderLong_1:
  "length data = index + 1 \<Longrightarrow> remainderLong data index = le32 (data ! index) 0 0 0"
  using le32_bits [of "data ! index" 0 0 0] by (simp add: remainderLong_def)

lemma remainderLong_2:
  "length data = index + 2 \<Longrightarrow>
   remainderLong data index = le32 (data ! index) (data ! (index + 1)) 0 0"
  using le32_bits [of "data ! index" "data ! (index + 1)" 0 0] by (simp add: remainderLong_def)

lemma remainderLong_3:
  "length data = index + 3 \<Longrightarrow>
   remainderLong data index = le32 (data ! index) (data ! (index + 1)) (data ! (index + 2)) 0"
  using le32_bits [of "data ! index" "data ! (index + 1)" "data ! (index + 2)" 0]
  by (simp add: remainderLong_def or.assoc)

lemma longsLE_append:
  "length xs mod 4 = 0 \<Longrightarrow> longsLE (xs @ ys) = longsLE xs @ longsLE ys"
  by (induction xs rule: longsLE.induct) simp_all

lemma replicate_three: "replicate 3 x = [x, x, x]"
  by (simp add: numeral_3_eq_3)

lemma replicate_two: "replicate 2 x = [x, x]"
  by (simp add: numeral_2_eq_2)

lemma zeroPad_1: "zeroPad [a] = [a, 0, 0, 0]"
  unfolding zeroPad_def by (simp add: replicate_three)

lemma zeroPad_2: "zeroPad [a, b] = [a, b, 0, 0]"
  unfolding zeroPad_def by (simp add: replicate_two)

lemma zeroPad_3: "zeroPad [a, b, c] = [a, b, c, 0]"
  unfolding zeroPad_def by simp

lemma longsLE_zeroPad_tail:
  "length data = index + r \<Longrightarrow> 0 < r \<Longrightarrow> r < 4 \<Longrightarrow>
   longsLE (zeroPad (drop index data)) = [remainderLong data index]"
proof -
  assume len: "length data = index + r" and r: "0 < r" "r < 4"
  consider "r = 1" | "r = 2" | "r = 3" using r by linarith
  then show ?thesis
  proof cases
    case 1
    with len have l: "length data = index + 1" by simp
    show ?thesis
      by (simp only: drop_tail1 [OF l] remainderLong_1 [OF l] zeroPad_1 longsLE.simps)
  next
    case 2
    with len have l: "length data = index + 2" by simp
    show ?thesis
      by (simp only: drop_tail2 [OF l] remainderLong_2 [OF l] zeroPad_2 longsLE.simps)
  next
    case 3
    with len have l: "length data = index + 3" by simp
    show ?thesis
      by (simp only: drop_tail3 [OF l] remainderLong_3 [OF l] zeroPad_3 longsLE.simps)
  qed
qed

lemma zeroPad_split:
  "zeroPad bytes =
     take (4 * (length bytes div 4)) bytes @ zeroPad (drop (4 * (length bytes div 4)) bytes)"
proof -
  have "length bytes - 4 * (length bytes div 4) = length bytes mod 4"
    by (simp add: minus_mult_div_eq_mod)
  then show ?thesis by (simp add: zeroPad_def)
qed

lemma encodeBytesAsLongs_longsLE:
  "encodeBytesAsLongs bytes s =
     ((length bytes + 3) div 4,
      pushCurrByteIfNotEmpty (fold encodeLongInternal (longsLE (zeroPad bytes)) s))"
proof -
  define n where "n = length bytes div 4"
  define r where "r = length bytes mod 4"
  have len: "length bytes = 4 * n + r" and r: "r < 4"
    by (simp_all add: n_def r_def)
  have loop: "fullLongsLoop bytes n 0 0 s =
      (4 * n, fold encodeLongInternal (longsLE (take (4 * n) bytes)) s)"
    using fullLongsLoop_longsLE [of 0 n 0 bytes s] len by simp
  have tk: "length (take (4 * n) bytes) mod 4 = 0" using len by simp
  have pad: "longsLE (zeroPad bytes) =
      longsLE (take (4 * n) bytes) @ longsLE (zeroPad (drop (4 * n) bytes))"
    by (subst zeroPad_split) (simp only: n_def [symmetric] longsLE_append [OF tk])
  have unfold: "encodeBytesAsLongs bytes s =
      (if 4 * n < length bytes
       then (n + 1,
             pushCurrByteIfNotEmpty
               (encodeLongInternal (remainderLong bytes (4 * n))
                  (fold encodeLongInternal (longsLE (take (4 * n) bytes)) s)))
       else (n, pushCurrByteIfNotEmpty (fold encodeLongInternal (longsLE (take (4 * n) bytes)) s)))"
    unfolding encodeBytesAsLongs_def Let_def n_def [symmetric] loop by simp
  show ?thesis
  proof (cases "r = 0")
    case True
    then have "drop (4 * n) bytes = []" using len by simp
    then have "longsLE (zeroPad bytes) = longsLE (take (4 * n) bytes)"
      using pad by (simp add: zeroPad_def)
    moreover have "(length bytes + 3) div 4 = n" unfolding len using True by simp
    moreover have "\<not> 4 * n < length bytes" unfolding len using True by simp
    ultimately show ?thesis
      unfolding unfold by simp
  next
    case False
    then have "longsLE (zeroPad (drop (4 * n) bytes)) = [remainderLong bytes (4 * n)]"
      using longsLE_zeroPad_tail [of bytes "4 * n" r] len r by simp
    then have "longsLE (zeroPad bytes) = longsLE (take (4 * n) bytes) @ [remainderLong bytes (4 * n)]"
      using pad by simp
    moreover have "(length bytes + 3) div 4 = n + 1" unfolding len using False r by simp
    moreover have "4 * n < length bytes" unfolding len using False by simp
    ultimately show ?thesis
      unfolding unfold by simp
  qed
qed

lemma length_longsLE: "length (longsLE xs) = length xs div 4"
  by (induction xs rule: longsLE.induct) simp_all

lemma length_zeroPad: "length (zeroPad bytes) div 4 = (length bytes + 3) div 4"
proof -
  define n r where "n = length bytes div 4" and "r = length bytes mod 4"
  have len: "length bytes = 4 * n + r" and r: "r < 4" by (simp_all add: n_def r_def)
  have "length (zeroPad bytes) = 4 * n + r + (4 - r) mod 4"
    using r by (simp add: zeroPad_def len)
  then show ?thesis unfolding len using r by (cases "r = 0") simp_all
qed

text \<open>
  Claim C2. For every byte sequence, \<open>encodeBytesAsLongs\<close> packs the bytes four at a
  time, little-endian, into 32-bit words, pads a tail shorter than four bytes with zero
  bytes, encodes each word with \<open>encodeLongInternal\<close>, pushes the last byte under
  construction, and returns the number of longs, the length divided by four and rounded
  up. A 5-byte input gives 2 longs, the second being the fifth byte followed by three
  zero bytes, exactly as for the 8-byte input with the zero bytes written out.
\<close>

theorem encodeBytesAsLongs_packs:
  "encodeBytesAsLongs bytes s =
     ((length bytes + 3) div 4,
      pushCurrByteIfNotEmpty (fold encodeLongInternal (longsLE (zeroPad bytes)) s)) \<and>
   length (longsLE (zeroPad bytes)) = (length bytes + 3) div 4 \<and>
   encodeBytesAsLongs [b0, b1, b2, b3, b4] s =
     (2, pushCurrByteIfNotEmpty
           (encodeLongInternal (le32 b4 0 0 0) (encodeLongInternal (le32 b0 b1 b2 b3) s))) \<and>
   encodeBytesAsLongs [b0, b1, b2, b3, b4] s = encodeBytesAsLongs [b0, b1, b2, b3, b4, 0, 0, 0] s"
proof -
  have pad5: "zeroPad [b0, b1, b2, b3, b4] = [b0, b1, b2, b3, b4, 0, 0, 0]"
    by (simp add: zeroPad_def replicate_three)
  have pad8: "zeroPad [b0, b1, b2, b3, b4, 0, 0, 0] = [b0, b1, b2, b3, b4, 0, 0, 0]"
    by (simp add: zeroPad_def)
  show ?thesis
    by (simp add: encodeBytesAsLongs_longsLE length_longsLE length_zeroPad pad5 pad8)
qed

section \<open>The size of an encoded image\<close>

lemma bitWidths_zero: "bitWidths 0 = replicate 31 3 @ [4]"
  by (simp add: bitWidths_def pulseWidth_def IntraLongIdleTime_def InterLongIdleTime_def map_replicate_const)

lemma fold_advance_shift: "fold advance ws (t + 10 * k) = fold advance ws t + 10 * k"
  by (induction ws arbitrary: t) (simp_all add: advance_shift)

lemma fold_advance_incr: "t \<le> fold advance ws t"
proof (induction ws arbitrary: t)
  case Nil
  then show ?case by simp
next
  case (Cons w ws)
  have "t \<le> advance w t" by (rule advance_incr)
  also have "\<dots> \<le> fold advance ws (advance w t)" by (rule Cons.IH)
  finally show ?case by simp
qed

lemma fold_advance_mono:
  "list_all2 (\<le>) ws ws' \<Longrightarrow> \<forall>w \<in> set ws'. w \<le> 10 \<Longrightarrow> t \<le> t' \<Longrightarrow>
   fold advance ws t \<le> fold advance ws' t'"
proof (induction arbitrary: t t' rule: list_all2_induct)
  case Nil
  then show ?case by simp
next
  case (Cons w ws w' ws')
  have "advance w t \<le> advance w' t'"
    using Cons.prems Cons.hyps(1) by (intro advance_mono) auto
  then show ?case using Cons.IH Cons.prems by simp
qed

lemma pulseWidth_le: "pulseWidth b \<le> 2"
  by (simp add: pulseWidth_def)

lemma bitWidths_le_zero: "list_all2 (\<le>) (bitWidths longValue) (bitWidths 0)"
proof -
  have "list_all2 (\<le>)
      (map (\<lambda>k. pulseWidth (ucast (drop_bit k longValue AND 1)) + IntraLongIdleTime) [0..<31])
      (replicate 31 3)"
    by (simp add: list_all2_conv_all_nth IntraLongIdleTime_def pulseWidth_def)
  moreover have "list_all2 (\<le>)
      [pulseWidth (ucast (drop_bit 31 longValue AND 1)) + InterLongIdleTime] [4]"
    using pulseWidth_le [of "ucast (drop_bit 31 longValue AND 1)"] by (simp add: InterLongIdleTime_def)
  ultimately have "list_all2 (\<le>) (bitWidths longValue) (replicate 31 3 @ [4])"
    unfolding bitWidths_def by (rule list_all2_appendI)
  then show ?thesis by (simp only: bitWidths_zero)
qed

lemma bitWidths_zero_le10: "\<forall>w \<in> set (bitWidths 0). w \<le> 10"
  by (simp add: bitWidths_zero)

lemma zero_long1: "fold advance (bitWidths 0) 0 = 107"
  unfolding bitWidths_zero by code_simp

lemma zero_long2: "fold advance (bitWidths 0 @ bitWidths 0) 0 = 214"
  unfolding bitWidths_zero by code_simp

lemma zero_long3: "fold advance (bitWidths 0 @ bitWidths 0 @ bitWidths 0) 0 = 320"
  unfolding bitWidths_zero by code_simp

lemma fold_encodeLongInternal_bitPos:
  "bitPos s \<le> 10 \<Longrightarrow> bitPos (fold encodeLongInternal longs s) \<le> 10"
  by (induction longs arbitrary: s) (simp_all add: encodeLongInternal_bitPos)

lemma fold_encodeLongInternal_slots:
  "bitPos s \<le> 10 \<Longrightarrow>
   slots (fold encodeLongInternal longs s) = fold advance (concat (map bitWidths longs)) (slots s)"
  by (induction longs arbitrary: s)
     (simp_all add: encodeLongInternal_bitPos encodeLongInternal_slots)

lemma zero_longs_period:
  "fold advance (concat (replicate (3 * m) (bitWidths 0))) 0 = 320 * m"
proof (induction m)
  case 0
  then show ?case by simp
next
  case (Suc m)
  have "3 * Suc m = 3 * m + 3" by simp
  then have "replicate (3 * Suc m) (bitWidths 0) =
      replicate (3 * m) (bitWidths 0) @ [bitWidths 0, bitWidths 0, bitWidths 0]"
    by (simp only: replicate_add replicate_three)
  then have "fold advance (concat (replicate (3 * Suc m) (bitWidths 0))) 0 =
      fold advance (bitWidths 0 @ bitWidths 0 @ bitWidths 0) (0 + 10 * (32 * m))"
    using Suc.IH by simp
  also have "\<dots> = 320 + 10 * (32 * m)"
    by (simp only: fold_advance_shift zero_long3)
  finally show ?case by simp
qed

lemma zero_longs_8192:
  "fold advance (concat (replicate 8192 (bitWidths 0))) 0 = 873814"
proof -
  have "(8192 :: nat) = 3 * 2730 + 2" by simp
  then have "replicate 8192 (bitWidths 0) =
      replicate (3 * 2730) (bitWidths 0) @ [bitWidths 0, bitWidths 0]"
    by (simp only: replicate_add replicate_two)
  then have "fold advance (concat (replicate 8192 (bitWidths 0))) 0 =
      fold advance (bitWidths 0 @ bitWidths 0) (0 + 10 * 87360)"
    using zero_longs_period [of 2730] by simp
  also have "\<dots> = 214 + 10 * 87360"
    by (simp only: fold_advance_shift zero_long2)
  finally show ?thesis by simp
qed

lemma longs_le_zero_longs:
  "length longs \<le> k \<Longrightarrow> t \<le> t' \<Longrightarrow>
   fold advance (concat (map bitWidths longs)) t \<le>
     fold advance (concat (replicate k (bitWidths 0))) t'"
proof (induction longs arbitrary: k t t')
  case Nil
  have "t' \<le> fold advance (concat (replicate k (bitWidths 0))) t'" by (rule fold_advance_incr)
  with Nil show ?case by simp
next
  case (Cons w longs)
  then obtain k' where k: "k = Suc k'" "length longs \<le> k'" by (cases k) auto
  have "fold advance (bitWidths w) t \<le> fold advance (bitWidths 0) t'"
    using bitWidths_le_zero bitWidths_zero_le10 Cons.prems(2) by (rule fold_advance_mono)
  then show ?case using Cons.IH [OF k(2)] k(1) by simp
qed

lemma le32_zero: "le32 0 0 0 0 = 0"
  by (simp add: le32_def)

lemma longsLE_replicate: "longsLE (replicate (4 * n) 0) = replicate n 0"
proof (induction n)
  case 0
  then show ?case by simp
next
  case (Suc n)
  have "replicate (4 * Suc n) (0 :: 8 word) = 0 # 0 # 0 # 0 # replicate (4 * n) 0"
    by (simp add: numeral_eq_Suc)
  then show ?case using Suc by (simp add: le32_zero)
qed

lemma fresh_encoder:
  "bitPos (ThreeBitProtocolEncoder buf) = 0" "slots (ThreeBitProtocolEncoder buf) = 0"
  by (simp_all add: ThreeBitProtocolEncoder_def slots_def)

lemma encoded_length:
  "length (buffer (snd (encodeBytesAsLongs bytes (ThreeBitProtocolEncoder buf)))) =
     (fold advance (concat (map bitWidths (longsLE (zeroPad bytes)))) 0 + 9) div 10"
  by (simp add: encodeBytesAsLongs_longsLE length_push_slots fold_encodeLongInternal_bitPos
      fold_encodeLongInternal_slots fresh_encoder)

lemma zero_image_longs: "longsLE (zeroPad (replicate 32768 0)) = replicate 8192 0"
proof -
  have "zeroPad (replicate 32768 0) = replicate (4 * 8192) 0"
    by (simp add: zeroPad_def)
  then show ?thesis by (simp only: longsLE_replicate)
qed

lemma zero_image_size:
  "length (buffer (snd (encodeBytesAsLongs (replicate 32768 0) (ThreeBitProtocolEncoder buf)))) = 87382"
  by (simp only: encoded_length zero_image_longs map_replicate zero_longs_8192)

lemma image_size_bound:
  assumes "length img \<le> 32768"
  shows "length (buffer (snd (encodeBytesAsLongs img (ThreeBitProtocolEncoder buf)))) \<le> 87382"
proof -
  have "length (longsLE (zeroPad img)) = (length img + 3) div 4"
    by (simp add: length_longsLE length_zeroPad)
  also have "\<dots> \<le> 8192" using assms by simp
  finally have "fold advance (concat (map bitWidths (longsLE (zeroPad img)))) 0 \<le>
      fold advance (concat (replicate 8192 (bitWidths 0))) 0"
    by (intro longs_le_zero_longs) simp_all
  then have "fold advance (concat (map bitWidths (longsLE (zeroPad img)))) 0 \<le> 873814"
    by (simp only: zero_longs_8192)
  then show ?thesis by (simp only: encoded_length)
qed

text \<open>
  Claim C3. The encoding of the image of 32768 zero bytes is exactly 87382 bytes long,
  and this is the worst case: the encoding of an image of at most 32768 bytes is never
  longer.
\<close>

theorem zero_image_encoded_size:
  "length (buffer (snd (encodeBytesAsLongs (replicate 32768 0) (ThreeBitProtocolEncoder [])))) =
     87382 \<and>
   (length img \<le> 32768 \<longrightarrow>
      length (buffer (snd (encodeBytesAsLongs img (ThreeBitProtocolEncoder [])))) \<le> 87382)"
  using zero_image_size [of "[]"] image_size_bound [of img "[]"] by simp

theorem zero_image_encoded_size_witness:
  "length [1, 2, 3, 4, 5 :: 8 word] \<le> 32768 \<and>
   length (buffer (snd (encodeBytesAsLongs [1, 2, 3, 4, 5] (ThreeBitProtocolEncoder [])))) \<le>
     87382"
  using zero_image_encoded_size [of "[1, 2, 3, 4, 5]"] by simp

section \<open>Verifying and encoding an image\<close>

text \<open>
  Claim C5. \<open>verifyAndEncodeImage\<close> throws \<open>std::invalid_argument\<close> exactly when the
  image is empty or longer than 32768 bytes. For an image of 1 to 32768 bytes it returns
  the number of longs of the zero-padded image and, in the output buffer (whose former
  content is discarded), the 3BP encoding of these longs.
\<close>

theorem verifyAndEncodeImage_correct:
  "(isl (verifyAndEncodeImage img encodedImage) \<longleftrightarrow> length img = 0 \<or> length img > 32768) \<and>
   (1 \<le> length img \<and> length img \<le> 32768 \<longrightarrow>
      verifyAndEncodeImage img encodedImage =
        Inr ((length img + 3) div 4,
             buffer (pushCurrByteIfNotEmpty
               (fold encodeLongInternal (longsLE (zeroPad img))
                  \<lparr>buffer = [], bitPos = 0, currByte = 0xff\<rparr>))))"
  by (auto simp: verifyAndEncodeImage_def encodeBytesAsLongs_longsLE ThreeBitProtocolEncoder_def)

theorem verifyAndEncodeImage_correct_witness:
  "1 \<le> length [1, 2, 3, 4, 5 :: 8 word] \<and> length [1, 2, 3, 4, 5 :: 8 word] \<le> 32768 \<and>
   verifyAndEncodeImage [1, 2, 3, 4, 5] [9, 9] =
     Inr (2, buffer (pushCurrByteIfNotEmpty
                (fold encodeLongInternal (longsLE (zeroPad [1, 2, 3, 4, 5]))
                   \<lparr>buffer = [], bitPos = 0, currByte = 0xff\<rparr>)))"
  using verifyAndEncodeImage_correct [of "[1, 2, 3, 4, 5]" "[9, 9]"] by simp

section \<open>The empty input\<close>

text \<open>
  Claim C10. On an empty byte vector \<open>encodeBytesAsLongs\<close> returns 0 and leaves the
  buffer of a fresh encoder empty: no long is encoded, and the untouched current byte
  (position 0, value 0xFF) is not pushed.
\<close>

theorem encodeBytesAsLongs_empty:
  "encodeBytesAsLongs [] (ThreeBitProtocolEncoder []) =
     (0, \<lparr>buffer = [], bitPos = 0, currByte = 0xff\<rparr>)"
  by (simp add: encodeBytesAsLongs_def fullLongsLoop.simps pushCurrByteIfNotEmpty_def
      ThreeBitProtocolEncoder_def)

section \<open>Decoding a 3BP response byte\<close>

lemma decode3BPByte_four:
  "decode3BPByte (a # b # c # d # rest) =
    (if a \<notin> valid3BP then Inl (Unexpected_byte a)
     else if b \<notin> valid3BP then Inl (Unexpected_byte b)
     else if c \<notin> valid3BP then Inl (Unexpected_byte c)
     else if d \<notin> valid3BP then Inl (Unexpected_byte d)
     else Inr (fromBitPairs [a, b, c, d], rest))"
  by (simp add: decode3BPByte_def decode3BPLoop.simps valid3BP_def bitPair_def fromBitPairs_def)

lemma decode3BPByte_three:
  "decode3BPByte [a, b, c] =
    (if a \<notin> valid3BP then Inl (Unexpected_byte a)
     else if b \<notin> valid3BP then Inl (Unexpected_byte b)
     else if c \<notin> valid3BP then Inl (Unexpected_byte c)
     else Inl Insufficient_bytes)"
  by (simp add: decode3BPByte_def decode3BPLoop.simps valid3BP_def)

lemma decode3BPByte_two:
  "decode3BPByte [a, b] =
    (if a \<notin> valid3BP then Inl (Unexpected_byte a)
     else if b \<notin> valid3BP then Inl (Unexpected_byte b)
     else Inl Insufficient_bytes)"
  by (simp add: decode3BPByte_def decode3BPLoop.simps valid3BP_def)

lemma decode3BPByte_one:
  "decode3BPByte [a] =
    (if a \<notin> valid3BP then Inl (Unexpected_byte a) else Inl Insufficient_bytes)"
  by (simp add: decode3BPByte_def decode3BPLoop.simps valid3BP_def)

lemma decode3BPByte_none: "decode3BPByte [] = Inl Insufficient_bytes"
  by (simp add: decode3BPByte_def decode3BPLoop.simps)

lemmas decode3BPByte_shapes =
  decode3BPByte_none decode3BPByte_one decode3BPByte_two decode3BPByte_three
  decode3BPByte_four

lemma up_to_four:
  obtains "xs = []" | a where "xs = [a]" | a b where "xs = [a, b]"
  | a b c where "xs = [a, b, c]" | a b c d rest where "xs = a # b # c # d # rest"
  by (metis list.exhaust)

text \<open>
  Claim C4. \<open>decode3BPByte\<close> returns normally exactly when at least four bytes are left
  and the first four are all among 0xCE, 0xCF, 0xEE, 0xEF; it then has consumed exactly
  these four bytes and returns the byte whose bit pairs, least significant first, are
  those of the mapping 0xCE to 00, 0xCF to 01, 0xEE to 10, 0xEF to 11. Otherwise it
  throws: the unexpected-byte error for the first byte outside the four values among the
  up to four bytes it reads, and the insufficient-bytes error when the input ends before
  four bytes and all its bytes are among the four values.
\<close>

theorem decode3BPByte_correct:
  "(decode3BPByte xs = Inr (v, rest) \<longleftrightarrow>
      4 \<le> length xs \<and> set (take 4 xs) \<subseteq> valid3BP \<and>
      v = fromBitPairs (take 4 xs) \<and> rest = drop 4 xs) \<and>
   (isl (decode3BPByte xs) \<longleftrightarrow> length xs < 4 \<or> \<not> set (take 4 xs) \<subseteq> valid3BP) \<and>
   (decode3BPByte xs = Inl Insufficient_bytes \<longleftrightarrow> length xs < 4 \<and> set xs \<subseteq> valid3BP) \<and>
   (decode3BPByte xs = Inl (Unexpected_byte u) \<longleftrightarrow>
      List.find (\<lambda>x. x \<notin> valid3BP) (take 4 xs) = Some u)"
proof (intro conjI)
  show "decode3BPByte xs = Inr (v, rest) \<longleftrightarrow>
      4 \<le> length xs \<and> set (take 4 xs) \<subseteq> valid3BP \<and>
      v = fromBitPairs (take 4 xs) \<and> rest = drop 4 xs"
    by (cases xs rule: up_to_four) (auto simp add: decode3BPByte_shapes)
  show "isl (decode3BPByte xs) \<longleftrightarrow> length xs < 4 \<or> \<not> set (take 4 xs) \<subseteq> valid3BP"
    by (cases xs rule: up_to_four) (auto simp add: decode3BPByte_shapes)
  show "decode3BPByte xs = Inl Insufficient_bytes \<longleftrightarrow> length xs < 4 \<and> set xs \<subseteq> valid3BP"
    by (cases xs rule: up_to_four) (auto simp add: decode3BPByte_shapes)
  show "decode3BPByte xs = Inl (Unexpected_byte u) \<longleftrightarrow>
      List.find (\<lambda>x. x \<notin> valid3BP) (take 4 xs) = Some u"
    by (cases xs rule: up_to_four) (auto simp add: decode3BPByte_shapes)
qed

section \<open>The validated setters\<close>

text \<open>
  The baudrate 0 is outside the interval from 1 to 115200, and \<open>setBaudrate\<close> stores it:
  the setter compares its argument with \<open>MaxBaudrate\<close> only.
\<close>

theorem setBaudrate_zero_accepted:
  "\<not> (1 \<le> (0 :: 32 word) \<and> (0 :: 32 word) \<le> 115200) \<and>
   setBaudrate 0 initial_settings = Inr (initial_settings\<lparr>baudrate := 0\<rparr>)"
  by (simp add: setBaudrate_def MaxBaudrate_def)

text \<open>
  Claim C6, as amended. \<open>setBaudrate\<close> throws \<open>std::invalid_argument\<close> exactly when its
  argument is greater than 115200 and stores every other value, 0 included;
  \<open>setResetDuration\<close> throws exactly when the duration is outside 1 to 100 ms, and
  \<open>setBootWaitDuration\<close> exactly when it is outside 50 to 150 ms; each stores the value
  otherwise.
\<close>

theorem setters_validate:
  "(isl (setBaudrate b st) \<longleftrightarrow> 115200 < b) \<and>
   (b \<le> 115200 \<longrightarrow> setBaudrate b st = Inr (st\<lparr>baudrate := b\<rparr>)) \<and>
   (isl (setResetDuration d st) \<longleftrightarrow> d < 1 \<or> 100 < d) \<and>
   (1 \<le> d \<and> d \<le> 100 \<longrightarrow> setResetDuration d st = Inr (st\<lparr>resetDuration := d\<rparr>)) \<and>
   (isl (setBootWaitDuration w st) \<longleftrightarrow> w < 50 \<or> 150 < w) \<and>
   (50 \<le> w \<and> w \<le> 150 \<longrightarrow>
      setBootWaitDuration w st = Inr (st\<lparr>bootWaitDuration := w\<rparr>))"
  by (auto simp: setBaudrate_def setResetDuration_def setBootWaitDuration_def MaxBaudrate_def)

theorem setters_validate_witness:
  "(9600 :: 32 word) \<le> 115200 \<and>
   setBaudrate 9600 initial_settings = Inr (initial_settings\<lparr>baudrate := 9600\<rparr>) \<and>
   (1 :: int) \<le> 20 \<and> (20 :: int) \<le> 100 \<and>
   setResetDuration 20 initial_settings = Inr (initial_settings\<lparr>resetDuration := 20\<rparr>) \<and>
   (50 :: int) \<le> 120 \<and> (120 :: int) \<le> 150 \<and>
   setBootWaitDuration 120 initial_settings =
     Inr (initial_settings\<lparr>bootWaitDuration := 120\<rparr>)"
  using setters_validate [of 9600 initial_settings 20 120] by simp

section \<open>The order of the stages\<close>

lemmas a_performAction_unfold =
  a_performAction_def callStage_def a_callStatusMonitorLoaderUpdate_def returnIf_def
  actionThread_def actionIsValid_def

lemma stages_in_order:
  "actionIsValid action \<Longrightarrow>
   prefix (stagesOf (fst (a_performAction stage action))) (stagesFor action)"
  by (cases action) (auto simp: a_performAction_unfold split: option.splits)

lemma stages_when_all_succeed:
  "actionIsValid action \<Longrightarrow> \<forall>st \<in> set (stagesFor action). stage st = None \<Longrightarrow>
   stagesOf (fst (a_performAction stage action)) = stagesFor action \<and>
   snd (actionThread stage action) = None_ErrorCode"
  by (cases action) (auto simp: a_performAction_unfold split: option.splits)

lemma throws_iff_stage_fails:
  "actionIsValid action \<Longrightarrow>
   (\<exists>e. snd (a_performAction stage action) = Thrown e) \<longleftrightarrow>
     (\<exists>st \<in> set (stagesFor action). stage st \<noteq> None)"
  by (cases action) (auto simp: a_performAction_unfold split: option.splits)

lemma stagesFor_in_order:
  "prefix (stagesFor action)
     [Stage1, Stage2a, Stage2b, Stage3, Stage4a, Stage4b, Stage5, Stage6, Stage7]"
  by (cases action) simp_all

text \<open>
  Claim C7. For every action that can be started, the stages run in the order 1, 2a, 2b,
  3, 4a, 4b, 5, 6, 7 and never beyond the last stage of the action's kind: stage 2a for
  Restart, stage 4a for Shutdown, stage 5 for LoadRAM, stage 7 for the two EEPROM
  actions. When these stages all return, exactly they are run and the action finishes
  with the error code None; the action throws exactly when one of them throws.
\<close>

theorem a_performAction_stages:
  assumes "actionIsValid action"
  shows "prefix (stagesOf (fst (a_performAction stage action))) (stagesFor action) \<and>
    prefix (stagesFor action)
      [Stage1, Stage2a, Stage2b, Stage3, Stage4a, Stage4b, Stage5, Stage6, Stage7] \<and>
    stagesFor Restart = [Stage1, Stage2a] \<and>
    stagesFor Shutdown = [Stage1, Stage2a, Stage2b, Stage3, Stage4a] \<and>
    stagesFor LoadRAM = [Stage1, Stage2a, Stage2b, Stage3, Stage4a, Stage4b, Stage5] \<and>
    ((\<forall>st \<in> set (stagesFor action). stage st = None) \<longrightarrow>
       stagesOf (fst (a_performAction stage action)) = stagesFor action \<and>
       snd (actionThread stage action) = None_ErrorCode) \<and>
    ((\<exists>e. snd (a_performAction stage action) = Thrown e) \<longleftrightarrow>
       (\<exists>st \<in> set (stagesFor action). stage st \<noteq> None))"
  using stages_in_order [OF assms] stages_when_all_succeed [OF assms]
    throws_iff_stage_fails [OF assms] stagesFor_in_order
  by simp

theorem a_performAction_stages_witness:
  "actionIsValid Shutdown \<and>
   list_all (\<lambda>st. (if st = Stage4b then Some FailedToSendImage else None) = None)
     (stagesFor Shutdown) \<and>
   stagesOf (fst (a_performAction (\<lambda>st. if st = Stage4b then Some FailedToSendImage else None)
      Shutdown)) = [Stage1, Stage2a, Stage2b, Stage3, Stage4a] \<and>
   snd (actionThread (\<lambda>st. if st = Stage4b then Some FailedToSendImage else None) Shutdown) =
     None_ErrorCode"
  using a_performAction_stages
    [of Shutdown "\<lambda>st. if st = Stage4b then Some FailedToSendImage else None"]
  by (simp add: actionIsValid_def)

section \<open>Reading a status code\<close>

lemma a_receiveStatus_idle:
  "list_all idlePass pre \<Longrightarrow>
   a_receiveStatus potentialError (pre @ ps) = a_receiveStatus potentialError ps"
  by (induction pre) (auto simp: idlePass_def)

lemma a_receiveStatus_reads:
  "readsByte p b \<Longrightarrow>
   a_receiveStatus potentialError (p # ps) =
     Some (if b = 0xfe then Inr False else if b = 0xff then Inr True else Inl potentialError)"
  by (auto simp: readsByte_def split: option.splits)

text \<open>
  Claim C8. When the poll, after any number of passes in which nothing arrives, reads a
  status byte, it returns \<open>false\<close> (success) exactly when the byte is 0xFE and \<open>true\<close>
  (failure) exactly when it is 0xFF, and throws the error code it was given for any other
  byte. In stage 5, when the action is not cancelled at the two checkpoints, the byte
  0xFE lets the stage return, 0xFF makes it throw PropReportsChecksumError and any other
  byte FailedToReceiveChecksumStatus.
\<close>

theorem a_receiveStatus_classifies:
  assumes "list_all idlePass pre" and "readsByte p b"
  shows "a_receiveStatus potentialError (pre @ p # rest) =
      Some (if b = 0xfe then Inr False else if b = 0xff then Inr True else Inl potentialError) \<and>
    (a_receiveStatus potentialError (pre @ p # rest) = Some (Inr False) \<longleftrightarrow> b = 0xfe) \<and>
    (a_receiveStatus potentialError (pre @ p # rest) = Some (Inr True) \<longleftrightarrow> b = 0xff) \<and>
    (b \<noteq> 0xfe \<and> b \<noteq> 0xff \<longrightarrow>
       a_receiveStatus potentialError (pre @ p # rest) = Some (Inl potentialError)) \<and>
    a_stage5_waitForChecksumStatus False (pre @ p # rest) False =
      Some (if b = 0xfe then Inr ()
            else if b = 0xff then Inl PropReportsChecksumError
            else Inl FailedToReceiveChecksumStatus)"
  using a_receiveStatus_idle [OF assms(1), of potentialError "p # rest"]
    a_receiveStatus_idle [OF assms(1), of FailedToReceiveChecksumStatus "p # rest"]
    a_receiveStatus_reads [OF assms(2), of potentialError rest]
    a_receiveStatus_reads [OF assms(2), of FailedToReceiveChecksumStatus rest]
  by (simp add: a_stage5_waitForChecksumStatus_def)

theorem a_receiveStatus_classifies_witness:
  "list_all idlePass
     [\<lparr>isCancelled = False, writeThrows = False, available = Some 0, readResult = None,
       timeoutPassed = False\<rparr>] \<and>
   readsByte
     \<lparr>isCancelled = False, writeThrows = False, available = Some 1,
      readResult = Some (1, 0xff), timeoutPassed = False\<rparr> 0xff \<and>
   a_receiveStatus FailedToReceiveEEPROMProgrammingStatus
     [\<lparr>isCancelled = False, writeThrows = False, available = Some 0, readResult = None,
       timeoutPassed = False\<rparr>,
      \<lparr>isCancelled = False, writeThrows = False, available = Some 1,
       readResult = Some (1, 0xff), timeoutPassed = False\<rparr>] = Some (Inr True) \<and>
   a_stage5_waitForChecksumStatus False
     [\<lparr>isCancelled = False, writeThrows = False, available = Some 0, readResult = None,
       timeoutPassed = False\<rparr>,
      \<lparr>isCancelled = False, writeThrows = False, available = Some 1,
       readResult = Some (1, 0xff), timeoutPassed = False\<rparr>] False =
     Some (Inl PropReportsChecksumError)"
  using a_receiveStatus_classifies
    [of "[\<lparr>isCancelled = False, writeThrows = False, available = Some 0, readResult = None,
           timeoutPassed = False\<rparr>]"
        "\<lparr>isCancelled = False, writeThrows = False, available = Some 1,
          readResult = Some (1, 0xff), timeoutPassed = False\<rparr>"
        "0xff" FailedToReceiveEEPROMProgrammingStatus "[]"]
  by (simp add: idlePass_def readsByte_def)

section \<open>The transit time in single precision\<close>

lemma binadeUp_bounds:
  "2 ^ (k + 23) \<le> x \<Longrightarrow> 2 ^ (binadeUp x k + 23) \<le> x \<and> x < 2 ^ (binadeUp x k + 24)"
proof (induction x k rule: binadeUp.induct)
  case (1 x k)
  show ?case
  proof (cases "x < 2 ^ (k + 24)")
    case True
    with 1 show ?thesis by (subst (1 2) binadeUp.simps) simp
  next
    case False
    then have "2 ^ (k + 1 + 23) \<le> x" by (simp add: ac_simps)
    with False "1.IH" show ?thesis by (subst (1 2) binadeUp.simps) simp
  qed
qed

lemma binadeDown_bounds:
  "0 < x \<Longrightarrow> x * 2 ^ k < 2 ^ 24 \<Longrightarrow>
   2 ^ 23 \<le> x * 2 ^ binadeDown x k \<and> x * 2 ^ binadeDown x k < 2 ^ 24"
proof (induction x k rule: binadeDown.induct)
  case (1 x k)
  show ?case
  proof (cases "2 ^ 23 \<le> x * 2 ^ k")
    case True
    with 1 show ?thesis by (subst (1 2) binadeDown.simps) simp
  next
    case False
    then have "x * 2 ^ (k + 1) < 2 ^ 24" by simp
    with False "1.IH" "1.prems" show ?thesis by (subst (1 2) binadeDown.simps) simp
  qed
qed

lemma roundHalfEven_error: "\<bar>of_int (roundHalfEven y) - y\<bar> \<le> 1 / 2"
proof -
  define f d where "f = \<lfloor>y\<rfloor>" and "d = y - of_int \<lfloor>y\<rfloor>"
  have d: "0 \<le> d" "d < 1" unfolding d_def by linarith+
  have y: "y = of_int f + d" by (simp add: f_def d_def)
  have r: "roundHalfEven y =
      (if d < 1 / 2 then f else if 1 / 2 < d then f + 1 else if even f then f else f + 1)"
    by (simp add: roundHalfEven_def Let_def f_def d_def)
  have "\<bar>of_int (roundHalfEven y) - (of_int f + d)\<bar> \<le> 1 / 2"
    unfolding r using d by (auto simp: abs_if)
  then show ?thesis by (simp only: y [symmetric])
qed

lemma roundHalfEven_of_int: "roundHalfEven (of_int i) = i"
  by (simp add: roundHalfEven_def)

lemma abs_scale_mult:
  fixes a c x :: rat
  assumes "0 < c"
  shows "\<bar>a * c - x\<bar> = \<bar>a - x / c\<bar> * c"
proof -
  have "a * c - x = (a - x / c) * c" using assms by (simp add: field_simps)
  then show ?thesis using assms by (simp add: abs_mult)
qed

lemma abs_scale_div:
  fixes a c x :: rat
  assumes "0 < c"
  shows "\<bar>a / c - x\<bar> = \<bar>a - x * c\<bar> / c"
proof -
  have "a / c - x = (a - x * c) / c" using assms by (simp add: field_simps)
  then show ?thesis using assms by (simp add: abs_divide)
qed

lemma binary32_error:
  assumes "0 < x"
  shows "\<bar>binary32 x - x\<bar> \<le> x / 2 ^ 24"
proof (cases "2 ^ 23 \<le> x")
  case True
  define k where "k = binadeUp x 0"
  define c :: rat where "c = 2 ^ k"
  have c: "0 < c" by (simp add: c_def)
  have b: "2 ^ 23 * c \<le> x" using binadeUp_bounds [of 0 x] True by (simp add: k_def c_def power_add mult.commute)
  have "\<bar>of_int (roundHalfEven (x / c)) * c - x\<bar> = \<bar>of_int (roundHalfEven (x / c)) - x / c\<bar> * c"
    using c by (rule abs_scale_mult)
  also have "\<dots> \<le> 1 / 2 * c"
    using roundHalfEven_error [of "x / c"] c by (intro mult_right_mono) simp_all
  also have "\<dots> \<le> x / 2 ^ 24" using b by simp
  finally show ?thesis using True by (simp add: binary32_def Let_def k_def c_def)
next
  case False
  define k where "k = binadeDown x 0"
  define c :: rat where "c = 2 ^ k"
  have c: "0 < c" by (simp add: c_def)
  have b: "2 ^ 23 \<le> x * c" using binadeDown_bounds [of x 0] False assms by (simp add: k_def c_def)
  have "\<bar>of_int (roundHalfEven (x * c)) / c - x\<bar> = \<bar>of_int (roundHalfEven (x * c)) - x * c\<bar> / c"
    using c by (rule abs_scale_div)
  also have "\<dots> \<le> 1 / 2 / c"
    using roundHalfEven_error [of "x * c"] c by (intro divide_right_mono) simp_all
  also have "\<dots> \<le> x / 2 ^ 24" using b c by (simp add: field_simps)
  finally show ?thesis using False by (simp add: binary32_def Let_def k_def c_def)
qed

lemma binary32_bounds:
  assumes "0 < x"
  shows "x * (1 - 1 / 2 ^ 24) \<le> binary32 x" and "binary32 x \<le> x * (1 + 1 / 2 ^ 24)"
proof -
  have "binary32 x - x \<le> x / 2 ^ 24" "- (binary32 x - x) \<le> x / 2 ^ 24"
    using binary32_error [OF assms] by (rule abs_le_D1, rule abs_le_D2)
  then show "x * (1 - 1 / 2 ^ 24) \<le> binary32 x" and "binary32 x \<le> x * (1 + 1 / 2 ^ 24)"
    by (simp_all add: algebra_simps)
qed

lemma binary32_exact:
  assumes "m < 2 ^ 24"
  shows "binary32 (of_nat m) = of_nat m"
proof (cases "(2 :: rat) ^ 23 \<le> of_nat m")
  case True
  have "rat_of_nat m < 2 ^ 24" using assms by (metis of_nat_less_iff of_nat_numeral of_nat_power)
  then have "binadeUp (of_nat m) 0 = 0" by (subst binadeUp.simps) simp
  moreover have "roundHalfEven (rat_of_nat m) = int m"
    using roundHalfEven_of_int [of "int m"] by simp
  ultimately show ?thesis using True by (simp add: binary32_def)
next
  case False
  define k where "k = binadeDown (of_nat m) 0"
  have "rat_of_nat m * 2 ^ k = of_int (int m * 2 ^ k)" by simp
  then have "roundHalfEven (rat_of_nat m * 2 ^ k) = int m * 2 ^ k"
    by (simp only: roundHalfEven_of_int)
  then show ?thesis using False by (simp add: binary32_def Let_def k_def [symmetric])
qed

lemma floor_rat_numeral: "\<lfloor>(numeral a :: rat) / numeral b\<rfloor> = numeral a div numeral b"
  by (metis floor_divide_of_int_eq of_int_numeral)

lemma binary32_900: "binary32 900 = 900"
  using binary32_exact [of 900] by simp

lemma binary32_115200: "binary32 115200 = 115200"
  using binary32_exact [of 115200] by simp

lemma binary32_product: "binary32 9000000000 = 8999999488"
proof -
  have "binadeUp 9000000000 0 = 10" by (simp add: binadeUp.simps)
  moreover have "roundHalfEven (17578125 / 2) = 8789062"
    by (simp add: roundHalfEven_def Let_def floor_rat_numeral)
  ultimately show ?thesis by (simp add: binary32_def)
qed

lemma binary32_quotient: "binary32 (17578124 / 225) = 9999999 / 128"
proof -
  have "binadeDown (17578124 / 225) 0 = 7" by (simp add: binadeDown.simps)
  then show ?thesis by (simp add: binary32_def roundHalfEven_def Let_def floor_rat_numeral)
qed

text \<open>
  For 900 bytes at 115200 baud the exact quotient is 78125. The product 9000000000 is not
  a binary32 value and rounds to 8999999488; the quotient of that by 115200 rounds to
  9999999 / 128, and the truncation gives 78124.
\<close>

theorem a_transitDuration_not_exact:
  "(1 :: nat) \<le> 900 \<and> (1 :: 32 word) \<le> 115200 \<and> (115200 :: 32 word) \<le> 115200 \<and>
   a_transitDuration 900 115200 = Some 78124 \<and>
   max 1 ((900 * 10000000) div 115200) = (78125 :: int)"
  by (simp add: a_transitDuration_def binary32_900 binary32_115200 binary32_product
      binary32_quotient floor_rat_numeral)

text \<open>
  Claim C9, as amended. For every byte count of at least 1 and every baudrate from 1 to
  115200, the transit-duration computation returns the greater of 1 and the truncated
  single-precision value of the byte count times 10000000 divided by the baudrate. That
  value is within a relative error of \<open>2^-22\<close> of the exact quotient, so the result is at
  least 1, at most the greater of 1 and the exact quotient times \<open>1 + 2^-22\<close>, and
  greater than the exact quotient times \<open>1 - 2^-22\<close> minus 1.
\<close>

theorem a_transitDuration_rounded:
  assumes "1 \<le> n" and "1 \<le> b" and "b \<le> 115200"
  shows "a_transitDuration n b =
      Some (max 1 \<lfloor>binary32 (binary32 (binary32 (of_nat n) * 10000000) / of_nat (unat b))\<rfloor>) \<and>
    (\<exists>v. a_transitDuration n b = Some v \<and> 1 \<le> v \<and>
      rat_of_int v \<le> max 1 (of_nat n * 10000000 / of_nat (unat b) * (1 + 1 / 2 ^ 22)) \<and>
      of_nat n * 10000000 / of_nat (unat b) * (1 - 1 / 2 ^ 22) - 1 < rat_of_int v)"
proof -
  define u where "u = unat b"
  define bf :: rat where "bf = of_nat u"
  define q :: rat where "q = of_nat n * 10000000 / bf"
  define x1 where "x1 = binary32 (of_nat n)"
  define x2 where "x2 = binary32 (x1 * 10000000)"
  define x3 where "x3 = binary32 (x2 / bf)"
  have ub: "1 \<le> u" "u \<le> 115200"
    using assms(2,3) by (simp_all add: word_le_nat_alt u_def)
  then have bf: "1 \<le> bf" by (simp add: bf_def)
  have b0: "b \<noteq> 0" using assms(2) by auto
  have "u < 2 ^ 24" using ub by simp
  then have bx: "binary32 (of_nat u) = bf" by (simp only: binary32_exact bf_def)
  have n: "(1 :: rat) \<le> of_nat n" using assms(1) by simp
  have q: "0 < q" using n bf by (simp add: q_def)
  have x1: "of_nat n * (1 - 1 / 2 ^ 24) \<le> x1" "x1 \<le> of_nat n * (1 + 1 / 2 ^ 24)"
    unfolding x1_def using n by (intro binary32_bounds; simp)+
  then have x1p: "0 < x1 * 10000000" using n by simp
  have x2: "x1 * 10000000 * (1 - 1 / 2 ^ 24) \<le> x2" "x2 \<le> x1 * 10000000 * (1 + 1 / 2 ^ 24)"
    unfolding x2_def using x1p by (intro binary32_bounds; simp)+
  have x2n: "of_nat n * 10000000 * ((1 - 1 / 2 ^ 24) * (1 - 1 / 2 ^ 24)) \<le> x2"
    "x2 \<le> of_nat n * 10000000 * ((1 + 1 / 2 ^ 24) * (1 + 1 / 2 ^ 24))"
    using x1 x2 by simp_all
  have y: "q * ((1 - 1 / 2 ^ 24) * (1 - 1 / 2 ^ 24)) \<le> x2 / bf"
    "x2 / bf \<le> q * ((1 + 1 / 2 ^ 24) * (1 + 1 / 2 ^ 24))"
    using divide_right_mono [OF x2n(1), of bf] divide_right_mono [OF x2n(2), of bf] bf
    by (simp_all add: q_def)
  have "0 < q * ((1 - 1 / 2 ^ 24) * (1 - 1 / 2 ^ 24))" using q by simp
  then have yp: "0 < x2 / bf" using y(1) by (rule less_le_trans)
  have x3: "x2 / bf * (1 - 1 / 2 ^ 24) \<le> x3" "x3 \<le> x2 / bf * (1 + 1 / 2 ^ 24)"
    unfolding x3_def using yp by (intro binary32_bounds; simp)+
  have lo: "q * (1 - 1 / 2 ^ 22) \<le> x3" using x3 y q by simp
  have hi: "x3 \<le> q * (1 + 1 / 2 ^ 22)" using x3 y q by simp
  define f where "f = \<lfloor>x3\<rfloor>"
  have val: "a_transitDuration n b = Some (if f < 1 then 1 else f)"
    using b0
    unfolding a_transitDuration_def Let_def f_def x3_def x2_def x1_def u_def [symmetric] bx
    by simp
  have fl: "of_int f \<le> x3" "x3 - 1 < of_int f" unfolding f_def by linarith+
  have "1 \<le> (if f < 1 then 1 else f) \<and>
      rat_of_int (if f < 1 then 1 else f) \<le> max 1 (q * (1 + 1 / 2 ^ 22)) \<and>
      q * (1 - 1 / 2 ^ 22) - 1 < rat_of_int (if f < 1 then 1 else f)"
    using lo hi fl by (auto simp: max_def)
  moreover have "a_transitDuration n b =
      Some (max 1 \<lfloor>binary32 (binary32 (binary32 (of_nat n) * 10000000) / of_nat (unat b))\<rfloor>)"
    unfolding val f_def x3_def x2_def x1_def bf_def u_def by (simp add: max_def)
  ultimately show ?thesis
    unfolding val q_def bf_def u_def by simp
qed

theorem a_transitDuration_rounded_witness:
  "(1 :: nat) \<le> 900 \<and> (1 :: 32 word) \<le> 115200 \<and> (115200 :: 32 word) \<le> 115200 \<and>
   a_transitDuration 900 115200 =
     Some (max 1 \<lfloor>binary32 (binary32 (binary32 (of_nat 900) * 10000000) /
                           of_nat (unat (115200 :: 32 word)))\<rfloor>) \<and>
   (\<exists>v. a_transitDuration 900 115200 = Some v \<and> 1 \<le> v \<and>
      rat_of_int v \<le>
        max 1 (of_nat 900 * 10000000 / of_nat (unat (115200 :: 32 word)) * (1 + 1 / 2 ^ 22)) \<and>
      of_nat 900 * 10000000 / of_nat (unat (115200 :: 32 word)) * (1 - 1 / 2 ^ 22) - 1 <
        rat_of_int v)"
proof -
  have h: "(1 :: nat) \<le> 900" "(1 :: 32 word) \<le> 115200" "(115200 :: 32 word) \<le> 115200"
    by simp_all
  from a_transitDuration_rounded [OF h] h show ?thesis by blast
qed

end
